theory Spec2Isabelle
  imports Main "HOL-Library.AList"
begin

section \<open>Package kio: readers, filters, writers and the pipeline\<close>

text \<open>
  The interfaces of \<^verbatim>\<open>kyaml/kio/kio.go\<close> are method sets whose implementations may
  have effects (reading a stream, running a subprocess, writing a buffer). An
  implementation is therefore a function on a world state \<open>'s\<close> that returns its Go
  result together with the new state. A collection \<^verbatim>\<open>[]*yaml.RNode\<close> is a list of node
  references \<open>'n\<close>; a nil slice and an empty slice are both the list \<open>[]\<close>, which is all
  that \<^verbatim>\<open>len(result) == 0\<close> can see. A Go \<^verbatim>\<open>error\<close> is \<open>'e option\<close>, \<open>None\<close> being nil.
  The model passes collections by value: it does not follow a stage that overwrites the
  elements of a slice another stage still holds. Every slot of a pipeline holds an
  implementation whose calls return: a nil interface value in a slot, and an
  implementation that panics or runs forever, are not values of these types.
\<close>

type_synonym ('s, 'n, 'e) Reader = "'s \<Rightarrow> ('n list \<times> 'e option) \<times> 's"

type_synonym ('s, 'n, 'e) Filter = "'n list \<Rightarrow> 's \<Rightarrow> ('n list \<times> 'e option) \<times> 's"

type_synonym ('s, 'n, 'e) Writer = "'n list \<Rightarrow> 's \<Rightarrow> 'e option \<times> 's"

text \<open>\<^verbatim>\<open>func (o ResourceNodeSlice) Read() ([]*yaml.RNode, error) { return o, nil }\<close>\<close>

definition ResourceNodeSlice_Read :: "'n list \<Rightarrow> 'n list \<times> 'e option" where
  "ResourceNodeSlice_Read ns = (ns, None)"

text \<open>A \<^verbatim>\<open>ResourceNodeSlice\<close> in a \<^verbatim>\<open>Reader\<close> slot: the method touches nothing else.\<close>

definition ResourceNodeSlice :: "'n list \<Rightarrow> ('s, 'n, 'e) Reader" where
  "ResourceNodeSlice ns = (\<lambda>s. (ResourceNodeSlice_Read ns, s))"

text \<open>\<^verbatim>\<open>func (fn WriterFunc) Write(o []*yaml.RNode) error { return fn(o) }\<close>\<close>

definition WriterFunc_Write :: "('s, 'n, 'e) Writer \<Rightarrow> ('s, 'n, 'e) Writer" where
  "WriterFunc_Write fn ns = fn ns"

text \<open>\<^verbatim>\<open>func (fn FilterFunc) Filter(o []*yaml.RNode) ([]*yaml.RNode, error) { return fn(o) }\<close>\<close>

definition FilterFunc_Filter :: "('s, 'n, 'e) Filter \<Rightarrow> ('s, 'n, 'e) Filter" where
  "FilterFunc_Filter fn ns = fn ns"

record ('s, 'n, 'e) Pipeline =
  Inputs :: "('s, 'n, 'e) Reader list"
  Filters :: "('s, 'n, 'e) Filter list"
  Outputs :: "('s, 'n, 'e) Writer list"

text \<open>
  What \<^verbatim>\<open>Execute\<close> calls, in the order it calls it: the position of the callee in its
  slice and, for a filter or a writer, the collection passed.
\<close>

datatype 'n call = ReadCall nat | FilterCall nat "'n list" | WriteCall nat "'n list"

text \<open>
  The read loop, lines 77 to 83, from input number \<open>k\<close> on with \<open>result\<close> accumulated so
  far. \<open>Inl e\<close> is the early \<^verbatim>\<open>return err\<close>, \<open>Inr result\<close> the loop running to its end.
\<close>

fun readInputs ::
  "('s, 'n, 'e) Reader list \<Rightarrow> nat \<Rightarrow> 'n list \<Rightarrow> 's \<Rightarrow> ('e + 'n list) \<times> 's \<times> 'n call list"
where
  "readInputs [] k result s = (Inr result, s, [])"
| "readInputs (i # rest) k result s =
     (case i s of
        ((nodes, Some e), s') \<Rightarrow> (Inl e, s', [ReadCall k])
      | ((nodes, None), s') \<Rightarrow>
          (case readInputs rest (Suc k) (result @ nodes) s' of
             (r, s'', calls) \<Rightarrow> (r, s'', ReadCall k # calls)))"

text \<open>
  The filter loop, lines 91 to 97. \<open>Inl err\<close> is the early \<^verbatim>\<open>return err\<close>, where \<open>err\<close>
  may be nil; \<open>Inr result\<close> is the loop running to its end.
\<close>

fun applyFilters ::
  "('s, 'n, 'e) Filter list \<Rightarrow> nat \<Rightarrow> 'n list \<Rightarrow> 's \<Rightarrow>
     ('e option + 'n list) \<times> 's \<times> 'n call list"
where
  "applyFilters [] k result s = (Inr result, s, [])"
| "applyFilters (op # rest) k result s =
     (case op result s of
        ((result', err), s') \<Rightarrow>
          if length result' = 0 \<or> err \<noteq> None then (Inl err, s', [FilterCall k result])
          else (case applyFilters rest (Suc k) result' s' of
                  (r, s'', calls) \<Rightarrow> (r, s'', FilterCall k result # calls)))"

text \<open>The write loop, lines 100 to 105, whose value is what \<^verbatim>\<open>Execute\<close> returns.\<close>

fun writeOutputs ::
  "('s, 'n, 'e) Writer list \<Rightarrow> nat \<Rightarrow> 'n list \<Rightarrow> 's \<Rightarrow> 'e option \<times> 's \<times> 'n call list"
where
  "writeOutputs [] k result s = (None, s, [])"
| "writeOutputs (w # rest) k result s =
     (case w result s of
        (Some e, s') \<Rightarrow> (Some e, s', [WriteCall k result])
      | (None, s') \<Rightarrow>
          (case writeOutputs rest (Suc k) result s' of
             (err, s'', calls) \<Rightarrow> (err, s'', WriteCall k result # calls)))"

text \<open>
  \<^verbatim>\<open>func (p Pipeline) Execute() error\<close>: the returned error, the world as the calls left
  it, and the calls made.
\<close>

definition Execute :: "('s, 'n, 'e) Pipeline \<Rightarrow> 's \<Rightarrow> 'e option \<times> 's \<times> 'n call list" where
  "Execute p s =
     (case readInputs (Inputs p) 0 [] s of
        (Inl e, s1, c1) \<Rightarrow> (Some e, s1, c1)
      | (Inr result, s1, c1) \<Rightarrow>
          if length result = 0 then (None, s1, c1)
          else (case applyFilters (Filters p) 0 result s1 of
                  (Inl err, s2, c2) \<Rightarrow> (err, s2, c1 @ c2)
                | (Inr result', s2, c2) \<Rightarrow>
                    (case writeOutputs (Outputs p) 0 result' s2 of
                       (err, s3, c3) \<Rightarrow> (err, s3, c1 @ c2 @ c3))))"

subsection \<open>The three phases as the specification words them\<close>

text \<open>
  The specification describes each phase as a plain iteration: read every input in
  source order, call every filter in declaration order on the current collection, write
  the final collection to every output in declaration order. The three functions below
  are those iterations with no early exit, recording what every call returned. They are
  what \<^verbatim>\<open>Execute\<close> is compared with.
\<close>

text \<open>Every read, in order: what each returned, and the world afterwards.\<close>

fun spec_read_all ::
  "('s, 'n, 'e) Reader list \<Rightarrow> 's \<Rightarrow> ('n list \<times> 'e option) list \<times> 's"
where
  "spec_read_all [] s = ([], s)"
| "spec_read_all (i # rest) s =
     (case i s of (r, s') \<Rightarrow>
        (case spec_read_all rest s' of (rs, s'') \<Rightarrow> (r # rs, s'')))"

text \<open>
  Every filter, in order, each on the result of the one before: for each stage the
  collection it was given, the collection and the error it returned; then the last
  collection and the world afterwards.
\<close>

fun spec_filter_chain ::
  "('s, 'n, 'e) Filter list \<Rightarrow> 'n list \<Rightarrow> 's \<Rightarrow>
     ('n list \<times> 'n list \<times> 'e option) list \<times> 'n list \<times> 's"
where
  "spec_filter_chain [] cur s = ([], cur, s)"
| "spec_filter_chain (f # rest) cur s =
     (case f cur s of ((res, err), s') \<Rightarrow>
        (case spec_filter_chain rest res s' of
           (obs, final, s'') \<Rightarrow> ((cur, res, err) # obs, final, s'')))"

text \<open>Every write of the same collection, in order: the errors, and the world afterwards.\<close>

fun spec_write_all ::
  "('s, 'n, 'e) Writer list \<Rightarrow> 'n list \<Rightarrow> 's \<Rightarrow> 'e option list \<times> 's"
where
  "spec_write_all [] final s = ([], s)"
| "spec_write_all (w # rest) final s =
     (case w final s of (err, s') \<Rightarrow>
        (case spec_write_all rest final s' of (errs, s'') \<Rightarrow> (err # errs, s'')))"

section \<open>Package filters: the container filter\<close>

text \<open>
  The source of \<^verbatim>\<open>ContainerFilter\<close>, of its resource-list codec and of
  \<^verbatim>\<open>GetContainerName\<close> is not among the source files; their tests are, in the file
  \<^verbatim>\<open>src/unnamed/part_000\<close>, to which the line numbers of this section refer. What the
  tests fix (field names, annotation keys, the expected argument vector) is taken from
  the tests. What only the missing source could fix is modelled from the specification,
  each such definition saying so.
\<close>

subsection \<open>Documents\<close>

text \<open>
  Modelled from the spec: the document type \<^verbatim>\<open>yaml.RNode\<close>, which belongs to the
  external document model. A document has a type tag (\<^verbatim>\<open>apiVersion\<close> and \<^verbatim>\<open>kind\<close>, the
  empty string when the field is absent), a string-to-string annotation mapping that
  keeps its order, and further content, left abstract.
\<close>

record 'c Document =
  apiVersion :: string
  kind :: string
  annotations :: "(string \<times> string) list"
  content :: 'c

text \<open>
  The annotation keys, as the tests write them (lines 253 and 103).
\<close>

definition ContainerAnnotation :: string where
  "ContainerAnnotation = ''kyaml.kustomize.dev/container''"

definition IndexAnnotation :: string where
  "IndexAnnotation = ''kyaml.kustomize.dev/kio/index''"

subsection \<open>Container-reference resolution\<close>

text \<open>
  Modelled from the spec: \<^verbatim>\<open>GetContainerName\<close>, whose source is missing. If the document
  has the container annotation, its value is returned verbatim. Otherwise, if the portion
  of \<^verbatim>\<open>apiVersion\<close> before the first \<^verbatim>\<open>/\<close> contains a \<^verbatim>\<open>.\<close>, the whole \<^verbatim>\<open>apiVersion\<close> is
  returned. Otherwise the empty string is returned.
\<close>

definition GetContainerName :: "'c Document \<Rightarrow> string" where
  "GetContainerName n =
     (case map_of (annotations n) ContainerAnnotation of
        Some v \<Rightarrow> v
      | None \<Rightarrow>
          if CHR ''.'' \<in> set (takeWhile (\<lambda>c. c \<noteq> CHR ''/'') (apiVersion n))
          then apiVersion n else [])"

subsection \<open>The invocation\<close>

text \<open>
  The fields of \<^verbatim>\<open>ContainerFilter\<close> that the tests set (lines 26 to 29 and 89 to 92), but for
  the test hook \<^verbatim>\<open>checkInput\<close>; and the fields of \<^verbatim>\<open>exec.Cmd\<close> that the tests read
  (lines 49 and 52). \<^verbatim>\<open>Args\<close> holds the command itself at position 0.
\<close>

record 'c ContainerFilter =
  Image :: string
  Config :: "'c Document"
  args :: "string list"

record Cmd =
  Args :: "string list"
  Env :: "string list"

text \<open>
  The name of an entry \<^verbatim>\<open>NAME=VALUE\<close> of \<^verbatim>\<open>os.Environ()\<close>, as the test takes it on
  line 46: \<^verbatim>\<open>strings.Split(e, "=")[0]\<close>, the part before the first \<^verbatim>\<open>=\<close>, the whole entry
  when it has none.
\<close>

definition envName :: "string \<Rightarrow> string" where
  "envName e = takeWhile (\<lambda>c. c \<noteq> CHR ''='') e"

text \<open>
  Modelled from the spec: the environment part of the invocation arguments, whose source
  is missing: \<^verbatim>\<open>-e NAME\<close> for every variable of the host environment, in the order the
  host lists them.
\<close>

fun envFlags :: "string list \<Rightarrow> string list" where
  "envFlags [] = []"
| "envFlags (e # rest) = ''-e'' # envName e # envFlags rest"

text \<open>
  Modelled from the spec: the construction of the invocation arguments, whose source is
  missing. The fixed profile, then the environment part, then the image reference, then
  the override arguments. The host environment is a parameter, the list that
  \<^verbatim>\<open>os.Environ()\<close> returns.
\<close>

definition getArgs :: "'c ContainerFilter \<Rightarrow> string list \<Rightarrow> string list" where
  "getArgs c environ =
     [''run'', ''--rm'', ''-i'', ''-a'', ''STDIN'', ''-a'', ''STDOUT'', ''-a'', ''STDERR'',
      ''--network'', ''none'', ''--user'', ''nobody'', ''--security-opt=no-new-privileges'']
     @ envFlags environ @ [Image c] @ args c"

text \<open>
  Modelled from the spec: \<^verbatim>\<open>getCommand\<close>, whose source is missing. The runtime is
  \<^verbatim>\<open>docker\<close>, as the test expects at position 0 of \<^verbatim>\<open>cmd.Args\<close> (line 37), and the
  subprocess is given the host environment, names and values.
\<close>

definition getCommand :: "'c ContainerFilter \<Rightarrow> string list \<Rightarrow> Cmd" where
  "getCommand c environ = \<lparr>Args = ''docker'' # getArgs c environ, Env = environ\<rparr>"

text \<open>
  The slice \<^verbatim>\<open>expected\<close> that \<^verbatim>\<open>TestFilter_command\<close> builds on lines 36 to 48 and compares
  with \<^verbatim>\<open>cmd.Args\<close>, as a function of \<^verbatim>\<open>os.Environ()\<close>.
\<close>

definition TestFilter_command_expected :: "string list \<Rightarrow> string list" where
  "TestFilter_command_expected environ =
     foldl (\<lambda>expected e. expected @ [''-e'', envName e])
       [''docker'', ''run'', ''--rm'', ''-i'', ''-a'', ''STDIN'', ''-a'', ''STDOUT'', ''-a'', ''STDERR'',
        ''--network'', ''none'', ''--user'', ''nobody'', ''--security-opt=no-new-privileges'']
       environ
     @ [''example.com:version'']"

subsection \<open>The resource-list codec\<close>

text \<open>
  Modelled from the spec: the character of a decimal digit \<open>d < 10\<close>, for the rendering
  below.
\<close>

definition digit :: "nat \<Rightarrow> char" where
  "digit d = ''0123456789'' ! d"

text \<open>
  Modelled from the spec: the base-10 rendering of an index, whose source is missing. The
  tests show \<^verbatim>\<open>0\<close> and \<^verbatim>\<open>1\<close> (lines 103 and 109).
\<close>

function itoa :: "nat \<Rightarrow> string" where
  "itoa n = (if n < 10 then [digit n] else itoa (n div 10) @ [digit (n mod 10)])"
  by pat_completeness auto
termination
  by (relation "measure id") auto

declare itoa.simps [simp del]

text \<open>
  Reading a base-10 numeral back. This is no part of the program; it serves to say which
  number an index annotation holds.
\<close>

fun digitVal :: "char \<Rightarrow> nat" where
  "digitVal c = length (takeWhile (\<lambda>x. x \<noteq> c) ''0123456789'')"

definition atoi :: "string \<Rightarrow> nat" where
  "atoi s = foldl (\<lambda>a c. 10 * a + digitVal c) 0 s"

text \<open>
  Modelled from the spec: the envelope, whose source is missing. Its type tag is the one
  the tests show on lines 95 and 96; it holds the items in order and at most one
  function-config document.
\<close>

record 'c ResourceList =
  rl_apiVersion :: string
  rl_kind :: string
  items :: "'c Document list"
  functionConfig :: "'c Document option"

text \<open>
  Modelled from the spec: stamping the index annotation, whose source is missing. The key
  is added or overwritten, every other annotation is left as it is, and item number \<open>i\<close>
  of the collection, counted from 0, gets the value \<open>i\<close>.
\<close>

definition stampIndex :: "nat \<Rightarrow> 'c Document \<Rightarrow> 'c Document" where
  "stampIndex i d = d\<lparr>annotations := AList.update IndexAnnotation (itoa i) (annotations d)\<rparr>"

text \<open>
  Modelled from the spec: stamping every item of a collection with its position.
\<close>

definition stampAll :: "'c Document list \<Rightarrow> 'c Document list" where
  "stampAll C = map (\<lambda>(i, d). stampIndex i d) (enumerate 0 C)"

text \<open>
  Modelled from the spec: wrapping a collection and a function-config into the envelope.
\<close>

definition envelope :: "'c Document list \<Rightarrow> 'c Document option \<Rightarrow> 'c ResourceList" where
  "envelope C F =
     \<lparr>rl_apiVersion = ''kyaml.kustomize.dev/v1alpha1'', rl_kind = ''ResourceList'',
      items = C, functionConfig = F\<rparr>"

text \<open>
  Modelled from the spec: \<^verbatim>\<open>Encode\<close>, whose source is missing. The items are stamped in
  place, so the caller's collection is changed too: the second component is the
  collection as the encoder leaves it. The serializer belongs to the external document
  model and is a parameter.
\<close>

definition Encode ::
  "('c ResourceList \<Rightarrow> 't) \<Rightarrow> 'c Document list \<Rightarrow> 'c Document option \<Rightarrow> 't \<times> 'c Document list"
where
  "Encode serialize C F = (let C' = stampAll C in (serialize (envelope C' F), C'))"

text \<open>
  Modelled from the spec: the two ways decoding fails, text that does not parse and an
  envelope of another kind.
\<close>

datatype codec_error = ParseError | FormatError

text \<open>
  Modelled from the spec: \<^verbatim>\<open>Decode\<close>, whose source is missing. The text is parsed by the
  external document model, a parameter; an envelope of another kind is a format error;
  otherwise the items are returned in the order of the text, their annotations
  untouched.
\<close>

definition Decode ::
  "('t \<Rightarrow> 'c ResourceList option) \<Rightarrow> 't \<Rightarrow> codec_error + 'c Document list"
where
  "Decode parse input =
     (case parse input of
        None \<Rightarrow> Inl ParseError
      | Some rl \<Rightarrow> if rl_kind rl \<noteq> ''ResourceList'' then Inl FormatError else Inr (items rl))"

section \<open>Properties of the pipeline\<close>

subsection \<open>The loops against the plain iterations\<close>

lemma readInputs_append:
  "readInputs (pre @ rest) k acc s =
     (case readInputs pre k acc s of
        (Inl e, s1, c1) \<Rightarrow> (Inl e, s1, c1)
      | (Inr r, s1, c1) \<Rightarrow>
          (case readInputs rest (k + length pre) r s1 of
             (x, s2, c2) \<Rightarrow> (x, s2, c1 @ c2)))"
  by (induction pre arbitrary: k acc s) (auto split: prod.splits option.splits sum.splits)

lemma readInputs_all_ok:
  "list_all (\<lambda>r. snd r = None) (fst (spec_read_all ins s)) \<Longrightarrow>
   readInputs ins k acc s =
     (Inr (acc @ concat (map fst (fst (spec_read_all ins s)))), snd (spec_read_all ins s),
      map ReadCall [k..<k + length ins])"
proof (induction ins arbitrary: k acc s)
  case Nil
  then show ?case by simp
next
  case (Cons i rest)
  obtain nodes err s1 where i: "i s = ((nodes, err), s1)"
    by (metis prod.exhaust)
  from Cons.prems i have err: "err = None"
    and ok: "list_all (\<lambda>r. snd r = None) (fst (spec_read_all rest s1))"
    by (auto split: prod.splits)
  show ?case
    using i err Cons.IH [OF ok, of "Suc k" "acc @ nodes"]
    by (simp del: upt_Suc add: upt_conv_Cons split: prod.splits)
qed

lemma applyFilters_all_ok:
  "list_all (\<lambda>(a, r, e). r \<noteq> [] \<and> e = None) (fst (spec_filter_chain fs cur s)) \<Longrightarrow>
   applyFilters fs k cur s =
     (Inr (fst (snd (spec_filter_chain fs cur s))), snd (snd (spec_filter_chain fs cur s)),
      map (\<lambda>(j, a, r, e). FilterCall j a) (enumerate k (fst (spec_filter_chain fs cur s))))"
proof (induction fs arbitrary: k cur s)
  case Nil
  then show ?case by simp
next
  case (Cons f rest)
  obtain res err s1 where f: "f cur s = ((res, err), s1)"
    by (metis prod.exhaust)
  from Cons.prems f have err: "err = None" and res: "res \<noteq> []"
    and ok: "list_all (\<lambda>(a, r, e). r \<noteq> [] \<and> e = None) (fst (spec_filter_chain rest res s1))"
    by (auto split: prod.splits)
  show ?case
    using f err res Cons.IH [OF ok, of "Suc k"]
    by (simp split: prod.splits)
qed

lemma writeOutputs_all_ok:
  "list_all (\<lambda>e. e = None) (fst (spec_write_all ws final s)) \<Longrightarrow>
   writeOutputs ws k final s =
     (None, snd (spec_write_all ws final s), map (\<lambda>j. WriteCall j final) [k..<k + length ws])"
proof (induction ws arbitrary: k s)
  case Nil
  then show ?case by simp
next
  case (Cons w rest)
  obtain err s1 where w: "w final s = (err, s1)"
    by (metis prod.exhaust)
  from Cons.prems w have err: "err = None"
    and ok: "list_all (\<lambda>e. e = None) (fst (spec_write_all rest final s1))"
    by (auto split: prod.splits)
  show ?case
    using w err Cons.IH [OF ok, of "Suc k"]
    by (simp del: upt_Suc add: upt_conv_Cons split: prod.splits)
qed

lemma applyFilters_append:
  "applyFilters (pre @ rest) k cur s =
     (case applyFilters pre k cur s of
        (Inl e, s1, c1) \<Rightarrow> (Inl e, s1, c1)
      | (Inr r, s1, c1) \<Rightarrow>
          (case applyFilters rest (k + length pre) r s1 of
             (x, s2, c2) \<Rightarrow> (x, s2, c1 @ c2)))"
  by (induction pre arbitrary: k cur s) (auto split: prod.splits option.splits sum.splits)

lemma writeOutputs_append:
  "writeOutputs (pre @ rest) k final s =
     (case writeOutputs pre k final s of
        (Some e, s1, c1) \<Rightarrow> (Some e, s1, c1)
      | (None, s1, c1) \<Rightarrow>
          (case writeOutputs rest (k + length pre) final s1 of
             (x, s2, c2) \<Rightarrow> (x, s2, c1 @ c2)))"
  by (induction pre arbitrary: k s) (auto split: prod.splits option.splits sum.splits)

lemma Execute_reads_ok:
  assumes "list_all (\<lambda>r. snd r = None) (fst (spec_read_all (Inputs p) s))"
  shows "Execute p s =
     (let r0 = concat (map fst (fst (spec_read_all (Inputs p) s)));
          s1 = snd (spec_read_all (Inputs p) s);
          c1 = map ReadCall [0..<length (Inputs p)]
      in if r0 = [] then (None, s1, c1)
         else (case applyFilters (Filters p) 0 r0 s1 of
                 (Inl err, s2, c2) \<Rightarrow> (err, s2, c1 @ c2)
               | (Inr final, s2, c2) \<Rightarrow>
                   (case writeOutputs (Outputs p) 0 final s2 of
                      (err, s3, c3) \<Rightarrow> (err, s3, c1 @ c2 @ c3))))"
  using readInputs_all_ok [OF assms, of 0 "[]"]
  by (simp add: Execute_def Let_def)

lemma readInputs_stop:
  assumes "list_all (\<lambda>r. snd r = None) (fst (spec_read_all pre s))"
    and "i (snd (spec_read_all pre s)) = ((nodes, Some e), s2)"
  shows "readInputs (pre @ i # post) 0 [] s = (Inl e, s2, map ReadCall [0..<Suc (length pre)])"
  using readInputs_all_ok [OF assms(1), of 0 "[]"] assms(2)
  by (simp add: readInputs_append)

lemma applyFilters_stop:
  assumes "spec_filter_chain pre r0 s1 = (obs, r1, s2)"
    and "list_all (\<lambda>(a, r, e). r \<noteq> [] \<and> e = None) obs"
    and "f r1 s2 = ((res, err), s3)"
    and "res = [] \<or> err \<noteq> None"
  shows "applyFilters (pre @ f # post) 0 r0 s1 =
     (Inl err, s3, map (\<lambda>(j, a, r, e). FilterCall j a) (enumerate 0 obs) @ [FilterCall (length pre) r1])"
proof -
  have "list_all (\<lambda>(a, r, e). r \<noteq> [] \<and> e = None) (fst (spec_filter_chain pre r0 s1))"
    using assms(1,2) by simp
  from applyFilters_all_ok [OF this, of 0] assms(1,3,4) show ?thesis
    by (auto simp add: applyFilters_append)
qed

lemma writeOutputs_stop:
  assumes "list_all (\<lambda>e. e = None) (fst (spec_write_all pre final s2))"
    and "w final (snd (spec_write_all pre final s2)) = (Some e, s3)"
  shows "writeOutputs (pre @ w # post) 0 final s2 =
     (Some e, s3, map (\<lambda>j. WriteCall j final) [0..<Suc (length pre)])"
  using writeOutputs_all_ok [OF assms(1), of 0] assms(2)
  by (simp add: writeOutputs_append)

lemma spec_filter_chain_length:
  "length (fst (spec_filter_chain fs cur s)) = length fs"
proof (induction fs arbitrary: cur s)
  case Nil
  then show ?case by simp
next
  case (Cons f rest)
  obtain res err s1 where f: "f cur s = ((res, err), s1)"
    by (metis prod.exhaust)
  show ?case
    using f Cons.IH [of res s1] by (auto split: prod.splits)
qed

lemma spec_read_all_length:
  "length (fst (spec_read_all ins s)) = length ins"
proof (induction ins arbitrary: s)
  case Nil
  then show ?case by simp
next
  case (Cons i rest)
  obtain r s1 where i: "i s = (r, s1)"
    by (metis prod.exhaust)
  show ?case
    using i Cons.IH [of s1] by (auto split: prod.splits)
qed

lemma spec_filter_chain_final:
  "fst (snd (spec_filter_chain fs cur s)) =
     (if fs = [] then cur else fst (snd (last (fst (spec_filter_chain fs cur s)))))"
proof (induction fs arbitrary: cur s)
  case Nil
  then show ?case by simp
next
  case (Cons f rest)
  obtain res err s1 where f: "f cur s = ((res, err), s1)"
    by (metis prod.exhaust)
  have len: "length (fst (spec_filter_chain rest res s1)) = length rest"
    by (rule spec_filter_chain_length)
  show ?case
    using f Cons.IH [of res s1] len
    by (cases rest) (auto split: prod.splits)
qed

lemma spec_filter_chain_link:
  "k < length fs \<Longrightarrow>
   fst (fst (spec_filter_chain fs cur s) ! k) =
     (if k = 0 then cur else fst (snd (fst (spec_filter_chain fs cur s) ! (k - 1))))"
proof (induction fs arbitrary: cur s k)
  case Nil
  then show ?case by simp
next
  case (Cons f rest)
  obtain res err s1 where f: "f cur s = ((res, err), s1)"
    by (metis prod.exhaust)
  show ?case
  proof (cases k)
    case 0
    then show ?thesis using f by (simp split: prod.splits)
  next
    case (Suc j)
    with Cons.prems have j: "j < length rest" by simp
    show ?thesis
      using f Suc Cons.IH [OF j, of res s1]
      by (cases j) (auto split: prod.splits)
  qed
qed

subsection \<open>The claims about the pipeline\<close>

text \<open>
  Claim C10. For every \<^verbatim>\<open>ResourceNodeSlice\<close> \<open>ns\<close>, \<^verbatim>\<open>Read\<close> returns exactly \<open>ns\<close>, the same
  elements in the same order, and a nil error. Used as an input source it never fails
  and is the identity: a pipeline reading from it alone collects exactly \<open>ns\<close>, and the
  world is as it was.
\<close>

theorem ResourceNodeSlice_Read_identity:
  "fst (ResourceNodeSlice_Read ns) = ns
   \<and> snd (ResourceNodeSlice_Read ns) = None
   \<and> ResourceNodeSlice ns s = ((ns, None), s)
   \<and> readInputs [ResourceNodeSlice ns] 0 [] s = (Inr ns, s, [ReadCall 0])"
  by (simp add: ResourceNodeSlice_Read_def ResourceNodeSlice_def)

text \<open>
  Claim C9. In the read phase every input's read is invoked in source order and the
  results are concatenated, in that order, into the one collection the filter phase
  starts from. If an input's read returns an error, \<^verbatim>\<open>Execute\<close> returns that error, and
  neither a later input nor any filter or writer is invoked.
\<close>

theorem Execute_read_phase:
  "(list_all (\<lambda>r. snd r = None) (fst (spec_read_all (Inputs p) s)) \<longrightarrow>
      (let r0 = concat (map fst (fst (spec_read_all (Inputs p) s)));
           s1 = snd (spec_read_all (Inputs p) s);
           c1 = map ReadCall [0..<length (Inputs p)]
       in readInputs (Inputs p) 0 [] s = (Inr r0, s1, c1)
          \<and> (r0 \<noteq> [] \<longrightarrow>
               Execute p s =
                 (case applyFilters (Filters p) 0 r0 s1 of
                    (Inl err, s2, c2) \<Rightarrow> (err, s2, c1 @ c2)
                  | (Inr final, s2, c2) \<Rightarrow>
                      (case writeOutputs (Outputs p) 0 final s2 of
                         (err, s3, c3) \<Rightarrow> (err, s3, c1 @ c2 @ c3))))))
   \<and> (\<forall>pre i post nodes e s2.
         Inputs p = pre @ i # post
         \<and> list_all (\<lambda>r. snd r = None) (fst (spec_read_all pre s))
         \<and> i (snd (spec_read_all pre s)) = ((nodes, Some e), s2) \<longrightarrow>
         Execute p s = (Some e, s2, map ReadCall [0..<Suc (length pre)]))"
proof (intro conjI impI allI)
  assume ok: "list_all (\<lambda>r. snd r = None) (fst (spec_read_all (Inputs p) s))"
  show "let r0 = concat (map fst (fst (spec_read_all (Inputs p) s)));
           s1 = snd (spec_read_all (Inputs p) s);
           c1 = map ReadCall [0..<length (Inputs p)]
       in readInputs (Inputs p) 0 [] s = (Inr r0, s1, c1)
          \<and> (r0 \<noteq> [] \<longrightarrow>
               Execute p s =
                 (case applyFilters (Filters p) 0 r0 s1 of
                    (Inl err, s2, c2) \<Rightarrow> (err, s2, c1 @ c2)
                  | (Inr final, s2, c2) \<Rightarrow>
                      (case writeOutputs (Outputs p) 0 final s2 of
                         (err, s3, c3) \<Rightarrow> (err, s3, c1 @ c2 @ c3))))"
    using readInputs_all_ok [OF ok, of 0 "[]"] Execute_reads_ok [OF ok]
    by (simp add: Let_def)
next
  fix pre i post nodes e s2
  assume h: "Inputs p = pre @ i # post
         \<and> list_all (\<lambda>r. snd r = None) (fst (spec_read_all pre s))
         \<and> i (snd (spec_read_all pre s)) = ((nodes, Some e), s2)"
  then have "readInputs (Inputs p) 0 [] s = (Inl e, s2, map ReadCall [0..<Suc (length pre)])"
    using readInputs_stop [of pre s i nodes e s2 post] by simp
  then show "Execute p s = (Some e, s2, map ReadCall [0..<Suc (length pre)])"
    by (simp add: Execute_def)
qed

text \<open>An instance of the theorem above, with every hypothesis discharged.\<close>

theorem Execute_read_phase_witness:
  "Execute \<lparr>Inputs = [ResourceNodeSlice [1, 2], ResourceNodeSlice [], ResourceNodeSlice [3]],
            Filters = [FilterFunc_Filter (\<lambda>ns s. ((rev ns, None), s))],
            Outputs = [WriterFunc_Write (\<lambda>ns s. (None, s @ [ns]))]\<rparr> ([] :: nat list list)
     = (None :: string option, [[3, 2, 1 :: nat]],
        [ReadCall 0, ReadCall 1, ReadCall 2, FilterCall 0 [1, 2, 3], WriteCall 0 [3, 2, 1]])
   \<and> Execute \<lparr>Inputs = [ResourceNodeSlice [1, 2], (\<lambda>s. (([7], Some ''read failed''), 5 # s)),
                        ResourceNodeSlice [3]],
            Filters = [FilterFunc_Filter (\<lambda>ns s. ((rev ns, None), s))],
            Outputs = [WriterFunc_Write (\<lambda>ns s. (None, s @ ns))]\<rparr> ([] :: nat list)
     = (Some ''read failed'', [5], [ReadCall 0, ReadCall 1 :: nat call])"
proof -
  let ?p = "\<lparr>Inputs = [ResourceNodeSlice [1, 2], ResourceNodeSlice [], ResourceNodeSlice [3]],
            Filters = [FilterFunc_Filter (\<lambda>ns s. ((rev ns, None :: string option), s))],
            Outputs = [WriterFunc_Write (\<lambda>ns s. (None, s @ [ns]))]\<rparr>
            :: (nat list list, nat, string) Pipeline"
  let ?q = "\<lparr>Inputs = [ResourceNodeSlice [1, 2], (\<lambda>s. (([7], Some ''read failed''), 5 # s)),
                        ResourceNodeSlice [3]],
            Filters = [FilterFunc_Filter (\<lambda>ns s. ((rev ns, None), s))],
            Outputs = [WriterFunc_Write (\<lambda>ns s. (None, s @ ns))]\<rparr>
            :: (nat list, nat, string) Pipeline"
  have ok: "list_all (\<lambda>r. snd r = None) (fst (spec_read_all (Inputs ?p) []))"
    by (simp add: ResourceNodeSlice_def ResourceNodeSlice_Read_def)
  have a: "Execute ?p [] = (None, [[3, 2, 1]],
        [ReadCall 0, ReadCall 1, ReadCall 2, FilterCall 0 [1, 2, 3], WriteCall 0 [3, 2, 1]])"
    using Execute_read_phase [of ?p "[]", THEN conjunct1, rule_format, OF ok]
    by (simp add: Let_def ResourceNodeSlice_def ResourceNodeSlice_Read_def
        FilterFunc_Filter_def WriterFunc_Write_def)
  have b: "Execute ?q [] = (Some ''read failed'', [5], [ReadCall 0, ReadCall 1])"
    using Execute_read_phase [of ?q "[]", THEN conjunct2, rule_format,
        of "[ResourceNodeSlice [1, 2]]" "(\<lambda>s. (([7], Some ''read failed''), 5 # s))"
           "[ResourceNodeSlice [3]]" "[7]" "''read failed''" "[5]"]
    by (simp add: ResourceNodeSlice_def ResourceNodeSlice_Read_def)
  from a b show ?thesis by simp
qed

text \<open>
  Claim C8. In the filter phase the filters are applied in declaration order, the first
  on the collection the read phase produced and each later one on the collection the
  filter before it returned. When no filter fails or empties the collection, the last
  filter's result is the collection passed to the write phase. Here \<open>obs\<close> lists, for
  each stage, the collection it was given and what it returned.
\<close>

theorem Execute_filter_phase:
  assumes "list_all (\<lambda>r. snd r = None) (fst (spec_read_all (Inputs p) s))"
    and "concat (map fst (fst (spec_read_all (Inputs p) s))) = r0"
    and "r0 \<noteq> []"
    and "spec_filter_chain (Filters p) r0 (snd (spec_read_all (Inputs p) s)) = (obs, final, s2)"
    and "list_all (\<lambda>(a, r, e). r \<noteq> [] \<and> e = None) obs"
  shows "applyFilters (Filters p) 0 r0 (snd (spec_read_all (Inputs p) s)) =
           (Inr final, s2, map (\<lambda>(j, a, r, e). FilterCall j a) (enumerate 0 obs))
         \<and> length obs = length (Filters p)
         \<and> (\<forall>k < length obs.
               fst (obs ! k) = (if k = 0 then r0 else fst (snd (obs ! (k - 1)))))
         \<and> final = (if Filters p = [] then r0 else fst (snd (last obs)))
         \<and> Execute p s =
             (case writeOutputs (Outputs p) 0 final s2 of
                (err, s3, c3) \<Rightarrow>
                  (err, s3,
                   map ReadCall [0..<length (Inputs p)]
                   @ map (\<lambda>(j, a, r, e). FilterCall j a) (enumerate 0 obs) @ c3))"
proof -
  let ?s1 = "snd (spec_read_all (Inputs p) s)"
  have ok: "list_all (\<lambda>(a, r, e). r \<noteq> [] \<and> e = None) (fst (spec_filter_chain (Filters p) r0 ?s1))"
    using assms(4,5) by simp
  have loop: "applyFilters (Filters p) 0 r0 ?s1 =
           (Inr final, s2, map (\<lambda>(j, a, r, e). FilterCall j a) (enumerate 0 obs))"
    using applyFilters_all_ok [OF ok, of 0] assms(4) by simp
  have len: "length obs = length (Filters p)"
    using spec_filter_chain_length [of "Filters p" r0 ?s1] unfolding assms(4) by simp
  have link: "\<forall>k < length obs.
               fst (obs ! k) = (if k = 0 then r0 else fst (snd (obs ! (k - 1))))"
    using spec_filter_chain_link [of _ "Filters p" r0 ?s1] len unfolding assms(4) by simp
  have fin: "final = (if Filters p = [] then r0 else fst (snd (last obs)))"
    using spec_filter_chain_final [of "Filters p" r0 ?s1] unfolding assms(4)
    by (simp only: fst_conv snd_conv)
  have run: "Execute p s =
             (case writeOutputs (Outputs p) 0 final s2 of
                (err, s3, c3) \<Rightarrow>
                  (err, s3,
                   map ReadCall [0..<length (Inputs p)]
                   @ map (\<lambda>(j, a, r, e). FilterCall j a) (enumerate 0 obs) @ c3))"
    using Execute_reads_ok [OF assms(1)] assms(2,3) loop by (simp add: Let_def)
  from loop len link fin run show ?thesis by blast
qed

text \<open>An instance of the theorem above, with every hypothesis discharged.\<close>

theorem Execute_filter_phase_witness:
  "Execute \<lparr>Inputs = [ResourceNodeSlice [1, 2], ResourceNodeSlice [3]],
            Filters = [FilterFunc_Filter (\<lambda>ns s. ((rev ns, None), 10 # s)),
                       FilterFunc_Filter (\<lambda>ns s. ((tl ns, None), 20 # s)),
                       FilterFunc_Filter (\<lambda>ns s. ((map Suc ns, None), 30 # s))],
            Outputs = [WriterFunc_Write (\<lambda>ns s. (None, ns @ s))]\<rparr> ([] :: nat list)
     = (None :: string option, [3, 2, 30, 20, 10],
        [ReadCall 0, ReadCall 1, FilterCall 0 [1, 2, 3], FilterCall 1 [3, 2, 1],
         FilterCall 2 [2, 1], WriteCall 0 [3, 2 :: nat]])"
proof -
  let ?f1 = "FilterFunc_Filter (\<lambda>ns s. ((rev ns, None), 10 # s)) :: (nat list, nat, string) Filter"
  let ?f2 = "FilterFunc_Filter (\<lambda>ns s. ((tl ns, None), 20 # s)) :: (nat list, nat, string) Filter"
  let ?f3 = "FilterFunc_Filter (\<lambda>ns s. ((map Suc ns, None), 30 # s)) :: (nat list, nat, string) Filter"
  let ?w = "WriterFunc_Write (\<lambda>ns s. (None, ns @ s)) :: (nat list, nat, string) Writer"
  let ?p = "\<lparr>Inputs = [ResourceNodeSlice [1, 2], ResourceNodeSlice [3]],
             Filters = [?f1, ?f2, ?f3], Outputs = [?w]\<rparr>"
  have p1: "list_all (\<lambda>r. snd r = None) (fst (spec_read_all (Inputs ?p) []))"
    by (simp add: ResourceNodeSlice_def ResourceNodeSlice_Read_def)
  have p2: "concat (map fst (fst (spec_read_all (Inputs ?p) []))) = [1, 2, 3]"
    by (simp add: ResourceNodeSlice_def ResourceNodeSlice_Read_def)
  have p3: "[1, 2, 3 :: nat] \<noteq> []"
    by simp
  have p4: "spec_filter_chain (Filters ?p) [1, 2, 3] (snd (spec_read_all (Inputs ?p) [])) =
              ([([1, 2, 3], [3, 2, 1], None), ([3, 2, 1], [2, 1], None), ([2, 1], [3, 2], None)],
               [3, 2], [30, 20, 10])"
    by (simp add: ResourceNodeSlice_def ResourceNodeSlice_Read_def FilterFunc_Filter_def)
  have p5: "list_all (\<lambda>(a, r, e). r \<noteq> [] \<and> e = None)
              [([1, 2, 3], [3, 2, 1 :: nat], None :: string option), ([3, 2, 1], [2, 1], None),
               ([2, 1], [3, 2], None)]"
    by simp
  show ?thesis
    using Execute_filter_phase [OF p1 p2 p3 p4 p5]
    by (simp add: WriterFunc_Write_def)
qed

text \<open>
  Claim C5. For every pipeline and every filter stage in it: if that stage's call returns
  an error, or returns an empty collection, \<^verbatim>\<open>Execute\<close> stops at once and returns
  exactly that call's error, which is nil when the stage emptied the collection without
  error. No later filter and no writer is invoked. The stage is \<open>f\<close>, reached after the
  stages \<open>pre\<close> before it each returned a non-empty collection and no error.
\<close>

theorem Execute_filter_stop:
  assumes "list_all (\<lambda>r. snd r = None) (fst (spec_read_all (Inputs p) s))"
    and "concat (map fst (fst (spec_read_all (Inputs p) s))) \<noteq> []"
    and "Filters p = pre @ f # post"
    and "spec_filter_chain pre (concat (map fst (fst (spec_read_all (Inputs p) s))))
           (snd (spec_read_all (Inputs p) s)) = (obs, r1, s2)"
    and "list_all (\<lambda>(a, r, e). r \<noteq> [] \<and> e = None) obs"
    and "f r1 s2 = ((res, err), s3)"
    and "res = [] \<or> err \<noteq> None"
  shows "Execute p s =
           (err, s3,
            map ReadCall [0..<length (Inputs p)]
            @ map (\<lambda>(j, a, r, e). FilterCall j a) (enumerate 0 obs)
            @ [FilterCall (length pre) r1])
         \<and> (\<forall>j a. WriteCall j a \<notin> set (snd (snd (Execute p s))))
         \<and> (\<forall>j a. FilterCall j a \<in> set (snd (snd (Execute p s))) \<longrightarrow> j \<le> length pre)"
proof -
  have run: "Execute p s =
           (err, s3,
            map ReadCall [0..<length (Inputs p)]
            @ map (\<lambda>(j, a, r, e). FilterCall j a) (enumerate 0 obs)
            @ [FilterCall (length pre) r1])"
    using Execute_reads_ok [OF assms(1)] assms(2,3)
      applyFilters_stop [where f = f and post = post, OF assms(4,5,6,7)]
    by (simp add: Let_def)
  have len: "length obs = length pre"
    using spec_filter_chain_length [of pre "concat (map fst (fst (spec_read_all (Inputs p) s)))"
        "snd (spec_read_all (Inputs p) s)"] assms(4)
    by simp
  have nowrite: "\<forall>j a. WriteCall j a \<notin> set (snd (snd (Execute p s)))"
    unfolding run by auto
  have early: "\<forall>j a. FilterCall j a \<in> set (snd (snd (Execute p s))) \<longrightarrow> j \<le> length pre"
    unfolding run using len by (auto simp add: in_set_enumerate_eq)
  from run nowrite early show ?thesis by blast
qed

text \<open>An instance of the theorem above, with every hypothesis discharged.\<close>

theorem Execute_filter_stop_witness:
  "Execute \<lparr>Inputs = [ResourceNodeSlice [1, 2, 3]],
            Filters = [FilterFunc_Filter (\<lambda>ns s. ((rev ns, None), 10 # s)),
                       FilterFunc_Filter (\<lambda>ns s. (([], None), 20 # s)),
                       FilterFunc_Filter (\<lambda>ns s. ((ns, Some ''third filter ran''), 30 # s))],
            Outputs = [WriterFunc_Write (\<lambda>ns s. (Some ''writer ran'', 40 # s))]\<rparr> ([] :: nat list)
     = (None, [20, 10], [ReadCall 0, FilterCall 0 [1, 2, 3], FilterCall 1 [3, 2, 1 :: nat]])
   \<and> Execute \<lparr>Inputs = [ResourceNodeSlice [1, 2, 3]],
            Filters = [FilterFunc_Filter (\<lambda>ns s. ((rev ns, None), 10 # s)),
                       FilterFunc_Filter (\<lambda>ns s. ((ns, Some ''second filter failed''), 20 # s)),
                       FilterFunc_Filter (\<lambda>ns s. ((ns, Some ''third filter ran''), 30 # s))],
            Outputs = [WriterFunc_Write (\<lambda>ns s. (Some ''writer ran'', 40 # s))]\<rparr> ([] :: nat list)
     = (Some ''second filter failed'', [20, 10],
        [ReadCall 0, FilterCall 0 [1, 2, 3], FilterCall 1 [3, 2, 1 :: nat]])"
proof -
  let ?f1 = "FilterFunc_Filter (\<lambda>ns s. ((rev ns, None), 10 # s)) :: (nat list, nat, string) Filter"
  let ?f2 = "FilterFunc_Filter (\<lambda>ns s. (([], None), 20 # s)) :: (nat list, nat, string) Filter"
  let ?f2' = "FilterFunc_Filter (\<lambda>ns s. ((ns, Some ''second filter failed''), 20 # s))
                :: (nat list, nat, string) Filter"
  let ?f3 = "FilterFunc_Filter (\<lambda>ns s. ((ns, Some ''third filter ran''), 30 # s))
                :: (nat list, nat, string) Filter"
  let ?w = "WriterFunc_Write (\<lambda>ns s. (Some ''writer ran'', 40 # s)) :: (nat list, nat, string) Writer"
  let ?p = "\<lparr>Inputs = [ResourceNodeSlice [1, 2, 3]], Filters = [?f1, ?f2, ?f3], Outputs = [?w]\<rparr>"
  let ?q = "\<lparr>Inputs = [ResourceNodeSlice [1, 2, 3]], Filters = [?f1, ?f2', ?f3], Outputs = [?w]\<rparr>"
  have p1: "list_all (\<lambda>r. snd r = None) (fst (spec_read_all (Inputs ?p) []))"
    by (simp add: ResourceNodeSlice_def ResourceNodeSlice_Read_def)
  have p2: "concat (map fst (fst (spec_read_all (Inputs ?p) []))) \<noteq> []"
    by (simp add: ResourceNodeSlice_def ResourceNodeSlice_Read_def)
  have p3: "Filters ?p = [?f1] @ ?f2 # [?f3]"
    by simp
  have p4: "spec_filter_chain [?f1] (concat (map fst (fst (spec_read_all (Inputs ?p) []))))
              (snd (spec_read_all (Inputs ?p) [])) = ([([1, 2, 3], [3, 2, 1], None)], [3, 2, 1], [10])"
    by (simp add: ResourceNodeSlice_def ResourceNodeSlice_Read_def FilterFunc_Filter_def)
  have p5: "list_all (\<lambda>(a, r, e). r \<noteq> [] \<and> e = None) [([1, 2, 3], [3, 2, 1 :: nat], None :: string option)]"
    by simp
  have p6: "?f2 [3, 2, 1] [10] = (([], None), [20, 10])"
    by (simp add: FilterFunc_Filter_def)
  have p7: "([] :: nat list) = [] \<or> (None :: string option) \<noteq> None"
    by simp
  have a: "Execute ?p [] = (None, [20, 10], [ReadCall 0, FilterCall 0 [1, 2, 3], FilterCall 1 [3, 2, 1]])"
    using Execute_filter_stop [where f = ?f2, OF p1 p2 p3 p4 p5 p6 p7, THEN conjunct1] by simp
  have q1: "list_all (\<lambda>r. snd r = None) (fst (spec_read_all (Inputs ?q) []))"
    by (simp add: ResourceNodeSlice_def ResourceNodeSlice_Read_def)
  have q2: "concat (map fst (fst (spec_read_all (Inputs ?q) []))) \<noteq> []"
    by (simp add: ResourceNodeSlice_def ResourceNodeSlice_Read_def)
  have q3: "Filters ?q = [?f1] @ ?f2' # [?f3]"
    by simp
  have q4: "spec_filter_chain [?f1] (concat (map fst (fst (spec_read_all (Inputs ?q) []))))
              (snd (spec_read_all (Inputs ?q) [])) = ([([1, 2, 3], [3, 2, 1], None)], [3, 2, 1], [10])"
    by (simp add: ResourceNodeSlice_def ResourceNodeSlice_Read_def FilterFunc_Filter_def)
  have q6: "?f2' [3, 2, 1] [10] = (([3, 2, 1], Some ''second filter failed''), [20, 10])"
    by (simp add: FilterFunc_Filter_def)
  have q7: "[3, 2, 1 :: nat] = [] \<or> Some ''second filter failed'' \<noteq> None"
    by simp
  have b: "Execute ?q [] = (Some ''second filter failed'', [20, 10],
             [ReadCall 0, FilterCall 0 [1, 2, 3], FilterCall 1 [3, 2, 1]])"
    using Execute_filter_stop [where f = ?f2', OF q1 q2 q3 q4 p5 q6 q7, THEN conjunct1] by simp
  from a b show ?thesis by simp
qed

text \<open>
  Claim C6. For every pipeline whose read phase, the concatenation of all inputs'
  results, yields an empty collection, \<^verbatim>\<open>Execute\<close> returns nil and invokes no filter
  and no writer: the calls made are the reads alone.
\<close>

theorem Execute_empty_read:
  assumes "list_all (\<lambda>r. snd r = None) (fst (spec_read_all (Inputs p) s))"
    and "concat (map fst (fst (spec_read_all (Inputs p) s))) = []"
  shows "Execute p s =
           (None, snd (spec_read_all (Inputs p) s), map ReadCall [0..<length (Inputs p)])"
  using Execute_reads_ok [OF assms(1)] assms(2) by (simp add: Let_def)

text \<open>An instance of the theorem above, with every hypothesis discharged.\<close>

theorem Execute_empty_read_witness:
  "Execute \<lparr>Inputs = [ResourceNodeSlice [], ResourceNodeSlice []],
            Filters = [FilterFunc_Filter (\<lambda>ns s. ((ns, Some ''filter ran''), 1 # s))],
            Outputs = [WriterFunc_Write (\<lambda>ns s. (Some ''writer ran'', 2 # s))]\<rparr> ([] :: nat list)
     = (None, [], [ReadCall 0, ReadCall 1 :: nat call])
   \<and> Execute \<lparr>Inputs = [],
            Filters = [FilterFunc_Filter (\<lambda>ns s. ((ns, Some ''filter ran''), 1 # s))],
            Outputs = [WriterFunc_Write (\<lambda>ns s. (Some ''writer ran'', 2 # s))]\<rparr> ([] :: nat list)
     = (None, [], [] :: nat call list)"
proof -
  let ?p = "\<lparr>Inputs = [ResourceNodeSlice [], ResourceNodeSlice []],
            Filters = [FilterFunc_Filter (\<lambda>ns s. ((ns, Some ''filter ran''), 1 # s))],
            Outputs = [WriterFunc_Write (\<lambda>ns s. (Some ''writer ran'', 2 # s))]\<rparr>
            :: (nat list, nat, string) Pipeline"
  let ?q = "\<lparr>Inputs = [],
            Filters = [FilterFunc_Filter (\<lambda>ns s. ((ns, Some ''filter ran''), 1 # s))],
            Outputs = [WriterFunc_Write (\<lambda>ns s. (Some ''writer ran'', 2 # s))]\<rparr>
            :: (nat list, nat, string) Pipeline"
  have p1: "list_all (\<lambda>r. snd r = None) (fst (spec_read_all (Inputs ?p) []))"
    by (simp add: ResourceNodeSlice_def ResourceNodeSlice_Read_def)
  have p2: "concat (map fst (fst (spec_read_all (Inputs ?p) []))) = []"
    by (simp add: ResourceNodeSlice_def ResourceNodeSlice_Read_def)
  have q1: "list_all (\<lambda>r. snd r = None) (fst (spec_read_all (Inputs ?q) []))"
    by simp
  have q2: "concat (map fst (fst (spec_read_all (Inputs ?q) []))) = []"
    by simp
  have a: "Execute ?p [] = (None, [], [ReadCall 0, ReadCall 1])"
    using Execute_empty_read [OF p1 p2]
    by (simp add: ResourceNodeSlice_def ResourceNodeSlice_Read_def)
  have b: "Execute ?q [] = (None, [], [])"
    using Execute_empty_read [OF q1 q2] by simp
  from a b show ?thesis by simp
qed

text \<open>
  Claim C7. In the write phase the output sinks are invoked in declaration order, each
  with the same final collection. The first writer error is returned and aborts the
  remaining writes; the writers that ran before the failing one have taken effect, the
  world being the one they left, with no rollback. Here \<open>c12\<close> are the calls of the read
  and filter phases.
\<close>

theorem Execute_write_phase:
  assumes "list_all (\<lambda>r. snd r = None) (fst (spec_read_all (Inputs p) s))"
    and "concat (map fst (fst (spec_read_all (Inputs p) s))) = r0"
    and "r0 \<noteq> []"
    and "spec_filter_chain (Filters p) r0 (snd (spec_read_all (Inputs p) s)) = (obs, final, s2)"
    and "list_all (\<lambda>(a, r, e). r \<noteq> [] \<and> e = None) obs"
    and "c12 = map ReadCall [0..<length (Inputs p)]
               @ map (\<lambda>(j, a, r, e). FilterCall j a) (enumerate 0 obs)"
  shows "(list_all (\<lambda>e. e = None) (fst (spec_write_all (Outputs p) final s2)) \<longrightarrow>
            Execute p s =
              (None, snd (spec_write_all (Outputs p) final s2),
               c12 @ map (\<lambda>j. WriteCall j final) [0..<length (Outputs p)]))
         \<and> (\<forall>pre w post e s3.
               Outputs p = pre @ w # post
               \<and> list_all (\<lambda>e. e = None) (fst (spec_write_all pre final s2))
               \<and> w final (snd (spec_write_all pre final s2)) = (Some e, s3) \<longrightarrow>
               Execute p s =
                 (Some e, s3, c12 @ map (\<lambda>j. WriteCall j final) [0..<Suc (length pre)]))"
proof -
  let ?s1 = "snd (spec_read_all (Inputs p) s)"
  have ok: "list_all (\<lambda>(a, r, e). r \<noteq> [] \<and> e = None) (fst (spec_filter_chain (Filters p) r0 ?s1))"
    using assms(4,5) by simp
  have loop: "applyFilters (Filters p) 0 r0 ?s1 =
           (Inr final, s2, map (\<lambda>(j, a, r, e). FilterCall j a) (enumerate 0 obs))"
    using applyFilters_all_ok [OF ok, of 0] assms(4) by simp
  have run: "Execute p s =
             (case writeOutputs (Outputs p) 0 final s2 of
                (err, s3, c3) \<Rightarrow> (err, s3, c12 @ c3))"
    using Execute_reads_ok [OF assms(1)] assms(2,3,6) loop by (simp add: Let_def)
  have all: "Execute p s =
              (None, snd (spec_write_all (Outputs p) final s2),
               c12 @ map (\<lambda>j. WriteCall j final) [0..<length (Outputs p)])"
    if "list_all (\<lambda>e. e = None) (fst (spec_write_all (Outputs p) final s2))"
    using writeOutputs_all_ok [OF that, of 0] run by simp
  have stop: "Execute p s =
                 (Some e, s3, c12 @ map (\<lambda>j. WriteCall j final) [0..<Suc (length pre)])"
    if "Outputs p = pre @ w # post"
      and "list_all (\<lambda>e. e = None) (fst (spec_write_all pre final s2))"
      and "w final (snd (spec_write_all pre final s2)) = (Some e, s3)"
    for pre w post e s3
    using writeOutputs_stop [where w = w and post = post, OF that(2,3)] that(1) run by simp
  from all stop show ?thesis by blast
qed

text \<open>An instance of the theorem above, with every hypothesis discharged.\<close>

theorem Execute_write_phase_witness:
  "Execute \<lparr>Inputs = [ResourceNodeSlice [1, 2]],
            Filters = [FilterFunc_Filter (\<lambda>ns s. ((rev ns, None), s))],
            Outputs = [WriterFunc_Write (\<lambda>ns s. (None, s @ [1 # ns])),
                       WriterFunc_Write (\<lambda>ns s. (None, s @ [2 # ns]))]\<rparr> ([] :: nat list list)
     = (None :: string option, [[1, 2, 1], [2, 2, 1]],
        [ReadCall 0, FilterCall 0 [1, 2], WriteCall 0 [2, 1], WriteCall 1 [2, 1 :: nat]])
   \<and> Execute \<lparr>Inputs = [ResourceNodeSlice [1, 2]],
            Filters = [FilterFunc_Filter (\<lambda>ns s. ((rev ns, None), s))],
            Outputs = [WriterFunc_Write (\<lambda>ns s. (None, s @ [1 # ns])),
                       WriterFunc_Write (\<lambda>ns s. (Some ''disk full'', s @ [[]])),
                       WriterFunc_Write (\<lambda>ns s. (None, s @ [3 # ns]))]\<rparr> ([] :: nat list list)
     = (Some ''disk full'', [[1, 2, 1], []],
        [ReadCall 0, FilterCall 0 [1, 2], WriteCall 0 [2, 1], WriteCall 1 [2, 1 :: nat]])"
proof -
  let ?f = "FilterFunc_Filter (\<lambda>ns s. ((rev ns, None), s)) :: (nat list list, nat, string) Filter"
  let ?w1 = "WriterFunc_Write (\<lambda>ns s. (None, s @ [1 # ns])) :: (nat list list, nat, string) Writer"
  let ?w2 = "WriterFunc_Write (\<lambda>ns s. (None, s @ [2 # ns])) :: (nat list list, nat, string) Writer"
  let ?wf = "WriterFunc_Write (\<lambda>ns s. (Some ''disk full'', s @ [[]]))
               :: (nat list list, nat, string) Writer"
  let ?w3 = "WriterFunc_Write (\<lambda>ns s. (None, s @ [3 # ns])) :: (nat list list, nat, string) Writer"
  let ?p = "\<lparr>Inputs = [ResourceNodeSlice [1, 2]], Filters = [?f], Outputs = [?w1, ?w2]\<rparr>"
  let ?q = "\<lparr>Inputs = [ResourceNodeSlice [1, 2]], Filters = [?f], Outputs = [?w1, ?wf, ?w3]\<rparr>"
  let ?c12 = "[ReadCall 0, FilterCall 0 [1, 2 :: nat]]"
  have p1: "list_all (\<lambda>r. snd r = None) (fst (spec_read_all (Inputs ?p) []))"
    by (simp add: ResourceNodeSlice_def ResourceNodeSlice_Read_def)
  have p2: "concat (map fst (fst (spec_read_all (Inputs ?p) []))) = [1, 2]"
    by (simp add: ResourceNodeSlice_def ResourceNodeSlice_Read_def)
  have p3: "[1, 2 :: nat] \<noteq> []"
    by simp
  have p4: "spec_filter_chain (Filters ?p) [1, 2] (snd (spec_read_all (Inputs ?p) [])) =
              ([([1, 2], [2, 1], None)], [2, 1], [])"
    by (simp add: ResourceNodeSlice_def ResourceNodeSlice_Read_def FilterFunc_Filter_def)
  have p5: "list_all (\<lambda>(a, r, e). r \<noteq> [] \<and> e = None) [([1, 2], [2, 1 :: nat], None :: string option)]"
    by simp
  have p6: "?c12 = map ReadCall [0..<length (Inputs ?p)]
               @ map (\<lambda>(j, a, r, e). FilterCall j a)
                   (enumerate 0 [([1, 2], [2, 1 :: nat], None :: string option)])"
    by simp
  have p7: "list_all (\<lambda>e. e = None) (fst (spec_write_all (Outputs ?p) [2, 1] []))"
    by (simp add: WriterFunc_Write_def)
  have a: "Execute ?p [] = (None, [[1, 2, 1], [2, 2, 1]],
        [ReadCall 0, FilterCall 0 [1, 2], WriteCall 0 [2, 1], WriteCall 1 [2, 1]])"
    using Execute_write_phase [OF p1 p2 p3 p4 p5 p6, THEN conjunct1, rule_format, OF p7]
    by (simp add: WriterFunc_Write_def)
  have q1: "list_all (\<lambda>r. snd r = None) (fst (spec_read_all (Inputs ?q) []))"
    by (simp add: ResourceNodeSlice_def ResourceNodeSlice_Read_def)
  have q2: "concat (map fst (fst (spec_read_all (Inputs ?q) []))) = [1, 2]"
    by (simp add: ResourceNodeSlice_def ResourceNodeSlice_Read_def)
  have q6: "?c12 = map ReadCall [0..<length (Inputs ?q)]
               @ map (\<lambda>(j, a, r, e). FilterCall j a)
                   (enumerate 0 [([1, 2], [2, 1 :: nat], None :: string option)])"
    by simp
  have q4: "spec_filter_chain (Filters ?q) [1, 2] (snd (spec_read_all (Inputs ?q) [])) =
              ([([1, 2], [2, 1], None)], [2, 1], [])"
    by (simp add: ResourceNodeSlice_def ResourceNodeSlice_Read_def FilterFunc_Filter_def)
  have q7: "Outputs ?q = [?w1] @ ?wf # [?w3]
               \<and> list_all (\<lambda>e. e = None) (fst (spec_write_all [?w1] [2, 1] []))
               \<and> ?wf [2, 1] (snd (spec_write_all [?w1] [2, 1] [])) = (Some ''disk full'', [[1, 2, 1], []])"
    by (simp add: WriterFunc_Write_def)
  have b: "Execute ?q [] = (Some ''disk full'', [[1, 2, 1], []],
        [ReadCall 0, FilterCall 0 [1, 2], WriteCall 0 [2, 1], WriteCall 1 [2, 1]])"
    using Execute_write_phase [OF q1 q2 p3 q4 p5 q6, THEN conjunct2, rule_format,
        where w = ?wf, OF q7]
    by simp
  from a b show ?thesis by simp
qed

section \<open>Properties of the container filter\<close>

subsection \<open>Numerals, environment flags and stamping\<close>

lemma digitVal_digit: "d < 10 \<Longrightarrow> digitVal (digit d) = d"
proof -
  have "\<forall>d<10. digitVal (digit d) = d"
    by (simp add: eval_nat_numeral All_less_Suc digit_def)
  then show "d < 10 \<Longrightarrow> digitVal (digit d) = d" by simp
qed

lemma atoi_itoa: "atoi (itoa n) = n"
proof (induction n rule: itoa.induct)
  case (1 n)
  show ?case
  proof (cases "n < 10")
    case True
    then show ?thesis
      by (subst itoa.simps) (simp add: atoi_def digitVal_digit del: digitVal.simps)
  next
    case False
    with 1 have "atoi (itoa (n div 10)) = n div 10" by simp
    then show ?thesis
      using False by (subst itoa.simps) (simp add: atoi_def digitVal_digit del: digitVal.simps)
  qed
qed

lemma itoa_inj: "inj itoa"
  by (rule inj_on_inverseI [where g = atoi]) (rule atoi_itoa)

lemma itoa_0: "itoa 0 = ''0''"
  by (subst itoa.simps) (simp add: digit_def)

lemma itoa_1: "itoa 1 = ''1''"
  by (subst itoa.simps) (simp add: digit_def)

lemma takeWhile_first_part:
  assumes "s = pre @ post" and "c \<notin> set pre" and "post = [] \<or> hd post = c"
  shows "takeWhile (\<lambda>x. x \<noteq> c) s = pre"
proof -
  have "takeWhile (\<lambda>x. x \<noteq> c) post = []"
    using assms(3) by (cases post) auto
  moreover have "\<forall>x \<in> set pre. x \<noteq> c"
    using assms(2) by auto
  ultimately show ?thesis
    using assms(1) by (simp add: takeWhile_append2)
qed

lemma envFlags_length: "length (envFlags environ) = 2 * length environ"
  by (induction environ) auto

lemma envFlags_nth:
  "i < length environ \<Longrightarrow>
   envFlags environ ! (2 * i) = ''-e'' \<and> envFlags environ ! (Suc (2 * i)) = envName (environ ! i)"
proof (induction environ arbitrary: i)
  case Nil
  then show ?case by simp
next
  case (Cons e rest)
  show ?case
  proof (cases i)
    case 0
    then show ?thesis by simp
  next
    case (Suc j)
    with Cons.prems have "j < length rest" by simp
    from Cons.IH [OF this] Suc show ?thesis by simp
  qed
qed

lemma envFlags_foldl:
  "foldl (\<lambda>expected e. expected @ [''-e'', envName e]) acc environ = acc @ envFlags environ"
  by (induction environ arbitrary: acc) auto

lemma envFlags_concat: "envFlags environ = concat (map (\<lambda>e. [''-e'', envName e]) environ)"
  by (induction environ) auto

lemma stampAll_length: "length (stampAll C) = length C"
  by (simp add: stampAll_def)

lemma stampAll_nth: "i < length C \<Longrightarrow> stampAll C ! i = stampIndex i (C ! i)"
  by (simp add: stampAll_def nth_enumerate_eq)

lemma stampIndex_index:
  "map_of (annotations (stampIndex i d)) IndexAnnotation = Some (itoa i)"
  by (simp add: stampIndex_def update_conv')

lemma stampIndex_other:
  "k \<noteq> IndexAnnotation \<Longrightarrow>
   map_of (annotations (stampIndex i d)) k = map_of (annotations d) k"
  by (simp add: stampIndex_def update_conv')

lemma stampAll_indices:
  "map (\<lambda>d. map_of (annotations d) IndexAnnotation) (stampAll C) =
     map (\<lambda>i. Some (itoa i)) [0..<length C]"
  by (rule nth_equalityI) (simp_all add: stampAll_length stampAll_nth stampIndex_index)

subsection \<open>The claims about the container filter\<close>

text \<open>
  Claim C1. For every non-empty collection \<open>C\<close> and function-config document \<open>F\<close>,
  encoding and then decoding the produced text yields the items in the order of \<open>C\<close>.
  They are \<open>C\<close> as the encoder leaves it, stamped in place: item \<open>i\<close> has the type tag,
  the content and the other annotations of \<open>C ! i\<close>, and carries the index annotation
  \<open>i\<close>. The external parser is assumed to read back the envelope the external
  serializer wrote.
\<close>

theorem Decode_Encode_roundtrip:
  assumes "C \<noteq> []"
    and "parse (serialize (envelope (stampAll C) (Some F))) = Some (envelope (stampAll C) (Some F))"
  shows "Decode parse (fst (Encode serialize C (Some F))) = Inr (snd (Encode serialize C (Some F)))
         \<and> length (snd (Encode serialize C (Some F))) = length C
         \<and> (\<forall>i < length C.
               apiVersion (snd (Encode serialize C (Some F)) ! i) = apiVersion (C ! i)
               \<and> kind (snd (Encode serialize C (Some F)) ! i) = kind (C ! i)
               \<and> content (snd (Encode serialize C (Some F)) ! i) = content (C ! i)
               \<and> (\<forall>k. k \<noteq> IndexAnnotation \<longrightarrow>
                      map_of (annotations (snd (Encode serialize C (Some F)) ! i)) k
                        = map_of (annotations (C ! i)) k)
               \<and> map_of (annotations (snd (Encode serialize C (Some F)) ! i)) IndexAnnotation
                     = Some (itoa i))"
proof -
  have out: "snd (Encode serialize C (Some F)) = stampAll C"
    by (simp add: Encode_def Let_def)
  have wire: "fst (Encode serialize C (Some F)) = serialize (envelope (stampAll C) (Some F))"
    by (simp add: Encode_def Let_def)
  have dec: "Decode parse (fst (Encode serialize C (Some F))) = Inr (snd (Encode serialize C (Some F)))"
    unfolding out wire using assms(2) by (simp add: Decode_def envelope_def)
  have len: "length (snd (Encode serialize C (Some F))) = length C"
    by (simp add: out stampAll_length)
  have each: "apiVersion (stampAll C ! i) = apiVersion (C ! i)
               \<and> kind (stampAll C ! i) = kind (C ! i)
               \<and> content (stampAll C ! i) = content (C ! i)
               \<and> (\<forall>k. k \<noteq> IndexAnnotation \<longrightarrow>
                      map_of (annotations (stampAll C ! i)) k = map_of (annotations (C ! i)) k)
               \<and> map_of (annotations (stampAll C ! i)) IndexAnnotation = Some (itoa i)"
    if "i < length C" for i
    using that by (simp add: stampAll_nth stampIndex_index stampIndex_other) (simp add: stampIndex_def)
  from dec len each show ?thesis
    unfolding out by blast
qed

text \<open>
  An instance of the theorem above, with every hypothesis discharged: the two documents
  of \<^verbatim>\<open>TestFilter_Filter_noChange\<close>, the second given a stale index and one more
  annotation, with the envelope itself standing for its text.
\<close>

theorem Decode_Encode_roundtrip_witness:
  "Decode Some (fst (Encode (\<lambda>rl. rl)
       [\<lparr>apiVersion = [], kind = ''Deployment'', annotations = [],
          content = [(''apiversion'', ''apps/v1''), (''metadata.name'', ''deployment-foo'')]\<rparr>,
        \<lparr>apiVersion = ''v1'', kind = ''Service'',
          annotations = [(''kyaml.kustomize.dev/kio/index'', ''7''), (''team'', ''a'')],
          content = [(''metadata.name'', ''service-foo'')]\<rparr>]
       (Some \<lparr>apiVersion = [], kind = ''Deployment'', annotations = [],
          content = [(''apiversion'', ''apps/v1''), (''metadata.name'', ''foo'')]\<rparr>)))
   = Inr [\<lparr>apiVersion = [], kind = ''Deployment'',
          annotations = [(''kyaml.kustomize.dev/kio/index'', ''0'')],
          content = [(''apiversion'', ''apps/v1''), (''metadata.name'', ''deployment-foo'')]\<rparr>,
        \<lparr>apiVersion = ''v1'', kind = ''Service'',
          annotations = [(''kyaml.kustomize.dev/kio/index'', ''1''), (''team'', ''a'')],
          content = [(''metadata.name'', ''service-foo'')]\<rparr>]"
proof -
  let ?C = "[\<lparr>apiVersion = [], kind = ''Deployment'', annotations = [],
          content = [(''apiversion'', ''apps/v1''), (''metadata.name'', ''deployment-foo'')]\<rparr>,
        \<lparr>apiVersion = ''v1'', kind = ''Service'',
          annotations = [(''kyaml.kustomize.dev/kio/index'', ''7''), (''team'', ''a'')],
          content = [(''metadata.name'', ''service-foo'')]\<rparr>]"
  let ?F = "\<lparr>apiVersion = [], kind = ''Deployment'', annotations = [],
          content = [(''apiversion'', ''apps/v1''), (''metadata.name'', ''foo'')]\<rparr>"
  have h1: "?C \<noteq> []"
    by simp
  have h2: "Some ((\<lambda>rl. rl) (envelope (stampAll ?C) (Some ?F))) = Some (envelope (stampAll ?C) (Some ?F))"
    by simp
  from Decode_Encode_roundtrip [of ?C Some "\<lambda>rl. rl" ?F, OF h1 h2]
  have "Decode Some (fst (Encode (\<lambda>rl. rl) ?C (Some ?F))) = Inr (snd (Encode (\<lambda>rl. rl) ?C (Some ?F)))"
    by blast
  then show ?thesis
    by (simp add: Encode_def Let_def stampAll_def stampIndex_def IndexAnnotation_def
        itoa_0 itoa_1 [unfolded One_nat_def])
qed

text \<open>
  Claim C2. For every collection handed to the encoder, every item of the produced
  envelope carries the index annotation, whose value is the item's position counted from
  0. Within the envelope the index values are unique, and read as numbers they are
  exactly 0 to \<open>n - 1\<close> in order, \<open>n\<close> being the length of the collection.
\<close>

theorem Encode_index_annotations:
  "fst (Encode serialize C F) = serialize (envelope (stampAll C) F)
   \<and> length (items (envelope (stampAll C) F)) = length C
   \<and> (\<forall>i < length C.
         map_of (annotations (items (envelope (stampAll C) F) ! i)) IndexAnnotation
           = Some (itoa i)
         \<and> atoi (itoa i) = i)
   \<and> distinct (map (\<lambda>d. map_of (annotations d) IndexAnnotation)
                  (items (envelope (stampAll C) F)))
   \<and> map (\<lambda>d. map_option atoi (map_of (annotations d) IndexAnnotation))
         (items (envelope (stampAll C) F)) = map Some [0..<length C]"
proof -
  let ?its = "items (envelope (stampAll C) F)"
  have its: "?its = stampAll C"
    by (simp add: envelope_def)
  have enc: "fst (Encode serialize C F) = serialize (envelope (stampAll C) F)"
    by (simp add: Encode_def Let_def)
  have len: "length ?its = length C"
    by (simp add: its stampAll_length)
  have each: "\<forall>i < length C.
         map_of (annotations (?its ! i)) IndexAnnotation = Some (itoa i) \<and> atoi (itoa i) = i"
    by (simp add: its stampAll_nth stampIndex_index atoi_itoa)
  have "inj (\<lambda>i. Some (itoa i))"
    using itoa_inj by (auto simp add: inj_on_def)
  then have dist: "distinct (map (\<lambda>d. map_of (annotations d) IndexAnnotation) ?its)"
    by (simp add: its stampAll_indices distinct_map inj_on_def)
  have "map (\<lambda>d. map_option atoi (map_of (annotations d) IndexAnnotation)) ?its =
          map (map_option atoi) (map (\<lambda>d. map_of (annotations d) IndexAnnotation) ?its)"
    by simp
  also have "\<dots> = map (map_option atoi) (map (\<lambda>i. Some (itoa i)) [0..<length C])"
    by (simp only: its stampAll_indices)
  also have "\<dots> = map Some [0..<length C]"
    by (simp add: atoi_itoa)
  finally have dense: "map (\<lambda>d. map_option atoi (map_of (annotations d) IndexAnnotation)) ?its =
          map Some [0..<length C]" .
  from enc len each dist dense show ?thesis by blast
qed

text \<open>
  An instance of the theorem above, on the same two documents.
\<close>

theorem Encode_index_annotations_witness:
  "map_of (annotations (items (envelope (stampAll
       [\<lparr>apiVersion = [], kind = ''Deployment'', annotations = [],
          content = [(''apiversion'', ''apps/v1''), (''metadata.name'', ''deployment-foo'')]\<rparr>,
        \<lparr>apiVersion = ''v1'', kind = ''Service'',
          annotations = [(''kyaml.kustomize.dev/kio/index'', ''7''), (''team'', ''a'')],
          content = [(''metadata.name'', ''service-foo'')]\<rparr>]) (Some \<lparr>apiVersion = [], kind = ''Deployment'', annotations = [],
          content = [(''apiversion'', ''apps/v1''), (''metadata.name'', ''foo'')]\<rparr>)) ! 0)) IndexAnnotation = Some ''0''
   \<and> map_of (annotations (items (envelope (stampAll
       [\<lparr>apiVersion = [], kind = ''Deployment'', annotations = [],
          content = [(''apiversion'', ''apps/v1''), (''metadata.name'', ''deployment-foo'')]\<rparr>,
        \<lparr>apiVersion = ''v1'', kind = ''Service'',
          annotations = [(''kyaml.kustomize.dev/kio/index'', ''7''), (''team'', ''a'')],
          content = [(''metadata.name'', ''service-foo'')]\<rparr>]) (Some \<lparr>apiVersion = [], kind = ''Deployment'', annotations = [],
          content = [(''apiversion'', ''apps/v1''), (''metadata.name'', ''foo'')]\<rparr>)) ! 1)) IndexAnnotation = Some ''1''
   \<and> map (\<lambda>d. map_option atoi (map_of (annotations d) IndexAnnotation))
       (items (envelope (stampAll
       [\<lparr>apiVersion = [], kind = ''Deployment'', annotations = [],
          content = [(''apiversion'', ''apps/v1''), (''metadata.name'', ''deployment-foo'')]\<rparr>,
        \<lparr>apiVersion = ''v1'', kind = ''Service'',
          annotations = [(''kyaml.kustomize.dev/kio/index'', ''7''), (''team'', ''a'')],
          content = [(''metadata.name'', ''service-foo'')]\<rparr>]) (Some \<lparr>apiVersion = [], kind = ''Deployment'', annotations = [],
          content = [(''apiversion'', ''apps/v1''), (''metadata.name'', ''foo'')]\<rparr>))) = [Some 0, Some 1]"
proof -
  let ?C = "[\<lparr>apiVersion = [], kind = ''Deployment'', annotations = [],
          content = [(''apiversion'', ''apps/v1''), (''metadata.name'', ''deployment-foo'')]\<rparr>,
        \<lparr>apiVersion = ''v1'', kind = ''Service'',
          annotations = [(''kyaml.kustomize.dev/kio/index'', ''7''), (''team'', ''a'')],
          content = [(''metadata.name'', ''service-foo'')]\<rparr>]"
  let ?F = "Some \<lparr>apiVersion = [], kind = ''Deployment'', annotations = [],
          content = [(''apiversion'', ''apps/v1''), (''metadata.name'', ''foo'')]\<rparr>"
  let ?its = "items (envelope (stampAll ?C) ?F)"
  note t = Encode_index_annotations [of "\<lambda>rl. rl" ?C ?F]
  from t have each: "\<forall>i < length ?C.
         map_of (annotations (?its ! i)) IndexAnnotation = Some (itoa i) \<and> atoi (itoa i) = i"
    by blast
  from t have dense: "map (\<lambda>d. map_option atoi (map_of (annotations d) IndexAnnotation)) ?its =
          map Some [0..<length ?C]"
    by blast
  have i0: "(0::nat) < length ?C" and i1: "(1::nat) < length ?C"
    by simp_all
  from each [rule_format, OF i0] have a: "map_of (annotations (?its ! 0)) IndexAnnotation = Some ''0''"
    by (simp only: itoa_0)
  from each [rule_format, OF i1] have b: "map_of (annotations (?its ! 1)) IndexAnnotation = Some ''1''"
    by (simp only: itoa_1)
  have "map Some [0..<length ?C] = [Some 0, Some (1::nat)]"
    by simp
  with dense have c: "map (\<lambda>d. map_option atoi (map_of (annotations d) IndexAnnotation)) ?its =
          [Some 0, Some 1]"
    by (simp only:)
  from a b c show ?thesis by blast
qed

text \<open>
  Claim C3. \<^verbatim>\<open>GetContainerName\<close> is a total function of the document alone. If the
  container annotation is present, its value is returned verbatim, whatever the
  \<^verbatim>\<open>apiVersion\<close>. Otherwise, with \<open>pre\<close> the portion of \<^verbatim>\<open>apiVersion\<close> before the first
  \<^verbatim>\<open>/\<close>: if \<open>pre\<close> contains a \<^verbatim>\<open>.\<close> the whole \<^verbatim>\<open>apiVersion\<close> is returned unchanged, and
  otherwise the empty string. Every \<^verbatim>\<open>apiVersion\<close> has such a portion, so the cases cover
  every document.
\<close>

theorem GetContainerName_resolve:
  "(\<forall>v. map_of (annotations n) ContainerAnnotation = Some v \<longrightarrow> GetContainerName n = v)
   \<and> (map_of (annotations n) ContainerAnnotation = None \<longrightarrow>
        (\<forall>pre post.
           apiVersion n = pre @ post \<and> CHR ''/'' \<notin> set pre
           \<and> (post = [] \<or> hd post = CHR ''/'') \<longrightarrow>
           GetContainerName n = (if CHR ''.'' \<in> set pre then apiVersion n else [])))
   \<and> (\<exists>pre post.
         apiVersion n = pre @ post \<and> CHR ''/'' \<notin> set pre
         \<and> (post = [] \<or> hd post = CHR ''/''))"
proof (intro conjI allI impI)
  fix v
  assume "map_of (annotations n) ContainerAnnotation = Some v"
  then show "GetContainerName n = v"
    by (simp add: GetContainerName_def)
next
  fix pre post
  assume none: "map_of (annotations n) ContainerAnnotation = None"
    and split: "apiVersion n = pre @ post \<and> CHR ''/'' \<notin> set pre
           \<and> (post = [] \<or> hd post = CHR ''/'')"
  then have "takeWhile (\<lambda>x. x \<noteq> CHR ''/'') (apiVersion n) = pre"
    using takeWhile_first_part [of "apiVersion n" pre post "CHR ''/''"] by blast
  with none show "GetContainerName n = (if CHR ''.'' \<in> set pre then apiVersion n else [])"
    by (simp add: GetContainerName_def)
next
  let ?pre = "takeWhile (\<lambda>x. x \<noteq> CHR ''/'') (apiVersion n)"
  let ?post = "dropWhile (\<lambda>x. x \<noteq> CHR ''/'') (apiVersion n)"
  have "apiVersion n = ?pre @ ?post"
    by simp
  moreover have "CHR ''/'' \<notin> set ?pre"
    by (auto dest: set_takeWhileD)
  moreover have "?post = [] \<or> hd ?post = CHR ''/''"
    using hd_dropWhile [of "\<lambda>x. x \<noteq> CHR ''/''" "apiVersion n"] by auto
  ultimately show "\<exists>pre post.
         apiVersion n = pre @ post \<and> CHR ''/'' \<notin> set pre
         \<and> (post = [] \<or> hd post = CHR ''/'')"
    by blast
qed

text \<open>
  Instances of the theorem above: the five documents of \<^verbatim>\<open>Test_GetContainerName\<close> with
  the results the test asserts, and \<^verbatim>\<open>apps/v1\<close>.
\<close>

theorem GetContainerName_resolve_witness:
  "GetContainerName \<lparr>apiVersion = ''gcr.io/foo/bar:something'', kind = ''MyThing'',
       annotations = [], content = ()\<rparr> = ''gcr.io/foo/bar:something''
   \<and> GetContainerName \<lparr>apiVersion = ''us.gcr.io/foo/bar:something'', kind = ''MyThing'',
       annotations = [], content = ()\<rparr> = ''us.gcr.io/foo/bar:something''
   \<and> GetContainerName \<lparr>apiVersion = ''v1'', kind = ''MyThing'',
       annotations = [(''kyaml.kustomize.dev/container'', ''gcr.io/foo/bar:something'')],
       content = ()\<rparr> = ''gcr.io/foo/bar:something''
   \<and> GetContainerName \<lparr>apiVersion = ''v1'', kind = ''MyThing'',
       annotations = [], content = ()\<rparr> = []
   \<and> GetContainerName \<lparr>apiVersion = ''docker.io/foo/bar:something'', kind = ''MyThing'',
       annotations = [], content = ()\<rparr> = ''docker.io/foo/bar:something''
   \<and> GetContainerName \<lparr>apiVersion = ''apps/v1'', kind = ''Deployment'',
       annotations = [], content = ()\<rparr> = []"
proof -
  let ?gcr = "\<lparr>apiVersion = ''gcr.io/foo/bar:something'', kind = ''MyThing'',
       annotations = [], content = ()\<rparr>"
  let ?us = "\<lparr>apiVersion = ''us.gcr.io/foo/bar:something'', kind = ''MyThing'',
       annotations = [], content = ()\<rparr>"
  let ?ann = "\<lparr>apiVersion = ''v1'', kind = ''MyThing'',
       annotations = [(''kyaml.kustomize.dev/container'', ''gcr.io/foo/bar:something'')],
       content = ()\<rparr>"
  let ?none = "\<lparr>apiVersion = ''v1'', kind = ''MyThing'', annotations = [], content = ()\<rparr>"
  let ?docker = "\<lparr>apiVersion = ''docker.io/foo/bar:something'', kind = ''MyThing'',
       annotations = [], content = ()\<rparr>"
  let ?apps = "\<lparr>apiVersion = ''apps/v1'', kind = ''Deployment'', annotations = [], content = ()\<rparr>"
  have gcr: "GetContainerName ?gcr = ''gcr.io/foo/bar:something''"
    using GetContainerName_resolve [of ?gcr, THEN conjunct2, THEN conjunct1, rule_format,
        of "''gcr.io''" "''/foo/bar:something''"]
    by (simp add: ContainerAnnotation_def)
  have us: "GetContainerName ?us = ''us.gcr.io/foo/bar:something''"
    using GetContainerName_resolve [of ?us, THEN conjunct2, THEN conjunct1, rule_format,
        of "''us.gcr.io''" "''/foo/bar:something''"]
    by (simp add: ContainerAnnotation_def)
  have ann: "GetContainerName ?ann = ''gcr.io/foo/bar:something''"
    using GetContainerName_resolve [of ?ann, THEN conjunct1, rule_format,
        of "''gcr.io/foo/bar:something''"]
    by (simp add: ContainerAnnotation_def)
  have none: "GetContainerName ?none = []"
    using GetContainerName_resolve [of ?none, THEN conjunct2, THEN conjunct1, rule_format,
        of "''v1''" "[]"]
    by (simp add: ContainerAnnotation_def)
  have docker: "GetContainerName ?docker = ''docker.io/foo/bar:something''"
    using GetContainerName_resolve [of ?docker, THEN conjunct2, THEN conjunct1, rule_format,
        of "''docker.io''" "''/foo/bar:something''"]
    by (simp add: ContainerAnnotation_def)
  have apps: "GetContainerName ?apps = []"
    using GetContainerName_resolve [of ?apps, THEN conjunct2, THEN conjunct1, rule_format,
        of "''apps''" "''/v1''"]
    by (simp add: ContainerAnnotation_def)
  from gcr us ann none docker apps show ?thesis by blast
qed

text \<open>
  Claim C4. For the image \<^verbatim>\<open>example.com:version\<close> with no override arguments and any host
  environment, the arguments passed to the runtime are exactly the fixed profile, then
  one pair \<^verbatim>\<open>-e NAME\<close> per host environment variable in enumeration order, then the
  image; with the runtime in front this is the slice \<^verbatim>\<open>TestFilter_command\<close> expects; and
  every entry of the host environment, name and value, is in the environment of the
  subprocess.
\<close>

theorem getCommand_invocation:
  assumes "Image c = ''example.com:version''" and "args c = []"
  shows "tl (Args (getCommand c environ)) =
           [''run'', ''--rm'', ''-i'', ''-a'', ''STDIN'', ''-a'', ''STDOUT'', ''-a'', ''STDERR'',
            ''--network'', ''none'', ''--user'', ''nobody'', ''--security-opt=no-new-privileges'']
           @ concat (map (\<lambda>e. [''-e'', envName e]) environ) @ [''example.com:version'']
         \<and> (\<forall>i < length environ.
               tl (Args (getCommand c environ)) ! (14 + 2 * i) = ''-e''
               \<and> tl (Args (getCommand c environ)) ! (15 + 2 * i) = envName (environ ! i))
         \<and> tl (Args (getCommand c environ)) ! (14 + 2 * length environ) = ''example.com:version''
         \<and> length (tl (Args (getCommand c environ))) = 15 + 2 * length environ
         \<and> Args (getCommand c environ) = TestFilter_command_expected environ
         \<and> (\<forall>e \<in> set environ. e \<in> set (Env (getCommand c environ)))"
proof -
  let ?fixed = "[''run'', ''--rm'', ''-i'', ''-a'', ''STDIN'', ''-a'', ''STDOUT'', ''-a'', ''STDERR'',
            ''--network'', ''none'', ''--user'', ''nobody'', ''--security-opt=no-new-privileges'']"
  let ?a = "tl (Args (getCommand c environ))"
  have a: "?a = ?fixed @ envFlags environ @ [''example.com:version'']"
    using assms by (simp add: getCommand_def getArgs_def)
  have len14: "length ?fixed = 14"
    by simp
  have shift: "?a ! (14 + k) = (envFlags environ @ [''example.com:version'']) ! k" for k
    unfolding a using len14 by (metis nth_append_length_plus)
  have pairs: "?a ! (14 + 2 * i) = ''-e'' \<and> ?a ! (15 + 2 * i) = envName (environ ! i)"
    if "i < length environ" for i
  proof -
    have "2 * i < length (envFlags environ)" and "Suc (2 * i) < length (envFlags environ)"
      using that by (simp_all add: envFlags_length)
    then have "?a ! (14 + 2 * i) = envFlags environ ! (2 * i)"
      and "?a ! (14 + Suc (2 * i)) = envFlags environ ! (Suc (2 * i))"
      by (simp_all only: shift nth_append if_True)
    moreover have "14 + Suc (2 * i) = 15 + 2 * i" by simp
    ultimately show ?thesis
      using envFlags_nth [OF that] by simp
  qed
  have img: "?a ! (14 + 2 * length environ) = ''example.com:version''"
    by (simp only: shift) (simp add: nth_append envFlags_length)
  have len: "length ?a = 15 + 2 * length environ"
    unfolding a by (simp add: envFlags_length)
  have test: "Args (getCommand c environ) = TestFilter_command_expected environ"
    using assms by (simp add: getCommand_def getArgs_def TestFilter_command_expected_def envFlags_foldl)
  have env: "\<forall>e \<in> set environ. e \<in> set (Env (getCommand c environ))"
    by (simp add: getCommand_def)
  from a pairs img len test env show ?thesis
    by (simp only: envFlags_concat) blast
qed

text \<open>
  An instance of the theorem above, in an environment that holds \<^verbatim>\<open>KYAML_TEST=FOO\<close>.
\<close>

theorem getCommand_invocation_witness:
  "tl (Args (getCommand
         \<lparr>Image = ''example.com:version'',
          Config = \<lparr>apiVersion = [], kind = ''Deployment'', annotations = [],
                    content = [(''apiversion'', ''apps/v1''), (''metadata.name'', ''foo'')]\<rparr>,
          args = []\<rparr>
         [''PATH=/usr/bin:/bin'', ''KYAML_TEST=FOO'', ''OPTS=a=b''])) =
     [''run'', ''--rm'', ''-i'', ''-a'', ''STDIN'', ''-a'', ''STDOUT'', ''-a'', ''STDERR'',
      ''--network'', ''none'', ''--user'', ''nobody'', ''--security-opt=no-new-privileges'',
      ''-e'', ''PATH'', ''-e'', ''KYAML_TEST'', ''-e'', ''OPTS'', ''example.com:version'']
   \<and> ''KYAML_TEST=FOO'' \<in> set (Env (getCommand
         \<lparr>Image = ''example.com:version'',
          Config = \<lparr>apiVersion = [], kind = ''Deployment'', annotations = [],
                    content = [(''apiversion'', ''apps/v1''), (''metadata.name'', ''foo'')]\<rparr>,
          args = []\<rparr>
         [''PATH=/usr/bin:/bin'', ''KYAML_TEST=FOO'', ''OPTS=a=b'']))"
proof -
  let ?c = "\<lparr>Image = ''example.com:version'',
          Config = \<lparr>apiVersion = [], kind = ''Deployment'', annotations = [],
                    content = [(''apiversion'', ''apps/v1''), (''metadata.name'', ''foo'')]\<rparr>,
          args = []\<rparr>"
  let ?environ = "[''PATH=/usr/bin:/bin'', ''KYAML_TEST=FOO'', ''OPTS=a=b'']"
  have h1: "Image ?c = ''example.com:version''"
    by simp
  have h2: "args ?c = []"
    by simp
  have h3: "''KYAML_TEST=FOO'' \<in> set ?environ"
    by simp
  note t = getCommand_invocation [OF h1 h2, of ?environ]
  from t [THEN conjunct1] have a: "tl (Args (getCommand ?c ?environ)) =
     [''run'', ''--rm'', ''-i'', ''-a'', ''STDIN'', ''-a'', ''STDOUT'', ''-a'', ''STDERR'',
      ''--network'', ''none'', ''--user'', ''nobody'', ''--security-opt=no-new-privileges'',
      ''-e'', ''PATH'', ''-e'', ''KYAML_TEST'', ''-e'', ''OPTS'', ''example.com:version'']"
    by (simp add: envName_def)
  from t h3 have b: "''KYAML_TEST=FOO'' \<in> set (Env (getCommand ?c ?environ))"
    by blast
  from a b show ?thesis by blast
qed

end
